theory Spec2Isabelle
  imports Main
begin

section \<open>The chess rules of \<open>main.cpp\<close>\<close>

text \<open>
  The program keeps the position of the game in a \<open>QGraphicsScene\<close>: every piece is a
  \<open>ChessPiece\<close> item with a pixel position, a piece type and a colour flag, and the rules
  read the board by hit-testing the scene at the centre of a square
  (\<open>scene->itemAt(col * 50 + 25, row * 50 + 25, ...)\<close>) and casting the answer to
  \<open>ChessPiece *\<close>.

  The model keeps exactly that data. A scene is the list of its chess pieces in stacking
  order, the topmost (most recently added) first. The 64 board rectangles lie underneath
  every piece and are no \<open>ChessPiece\<close>s, so a hit on one of them is the \<open>nullptr\<close> of the
  \<open>dynamic_cast\<close>, which is \<open>None\<close> here. The shape of a piece is taken to be the
  50 by 50 cell whose top-left corner is the position of the piece. The highlight
  rectangles of the user interface are not part of the model. Rows, columns and pixel
  coordinates are the \<open>int\<close>s of the source, taken unbounded: for squares on or near the
  board no computation of the rules comes near the range of a machine \<open>int\<close>.
\<close>

subsection \<open>Pieces and the scene\<close>

datatype PieceType = Pawn | Rook | Knight | Bishop | Queen | King

record ChessPiece =
  pos_x :: int
  pos_y :: int
  m_pieceType :: PieceType
  m_isWhite :: bool

text \<open>The constructor \<open>ChessPiece(symbol, x, y, type, isWhite)\<close>; the glyph plays no part
  in the rules.\<close>

definition new_ChessPiece :: "int \<Rightarrow> int \<Rightarrow> PieceType \<Rightarrow> bool \<Rightarrow> ChessPiece" where
  "new_ChessPiece x y t w = \<lparr>pos_x = x, pos_y = y, m_pieceType = t, m_isWhite = w\<rparr>"

type_synonym scene = "ChessPiece list"

definition addItem :: "scene \<Rightarrow> ChessPiece \<Rightarrow> scene" where
  "addItem s p = p # s"

definition removeItem :: "ChessPiece \<Rightarrow> scene \<Rightarrow> scene" where
  "removeItem p s = remove1 p s"

text \<open>\<open>piece->setPos(x, y)\<close>: the piece keeps its place in the stacking order.\<close>

definition setPos :: "ChessPiece \<Rightarrow> int \<Rightarrow> int \<Rightarrow> scene \<Rightarrow> scene" where
  "setPos piece x y s = map (\<lambda>q. if q = piece then q\<lparr>pos_x := x, pos_y := y\<rparr> else q) s"

definition contains_point :: "ChessPiece \<Rightarrow> int \<Rightarrow> int \<Rightarrow> bool" where
  "contains_point p x y \<longleftrightarrow>
     pos_x p \<le> x \<and> x < pos_x p + 50 \<and> pos_y p \<le> y \<and> y < pos_y p + 50"

text \<open>\<open>dynamic_cast<ChessPiece *>(scene->itemAt(x, y, QTransform()))\<close>: the topmost piece
  under the point.\<close>

definition itemAt :: "scene \<Rightarrow> int \<Rightarrow> int \<Rightarrow> ChessPiece option" where
  "itemAt s x y = find (\<lambda>p. contains_point p x y) s"

text \<open>\<open>scene->items(QRectF(x, y, 50, 50), Qt::IntersectsItemShape)\<close>, restricted to the
  chess pieces, topmost first.\<close>

definition items_in_rect :: "scene \<Rightarrow> int \<Rightarrow> int \<Rightarrow> ChessPiece list" where
  "items_in_rect s x y = filter (\<lambda>p. \<bar>pos_x p - x\<bar> < 50 \<and> \<bar>pos_y p - y\<bar> < 50) s"

text \<open>\<open>int currentRow = piece->pos().y() / 50;\<close> divides a \<open>qreal\<close> and converts the
  quotient to \<open>int\<close>, which truncates toward zero.\<close>

definition to_square :: "int \<Rightarrow> int" where
  "to_square v = (if 0 \<le> v then v div 50 else - ((- v) div 50))"

definition piece_row :: "ChessPiece \<Rightarrow> int" where
  "piece_row p = to_square (pos_y p)"

definition piece_col :: "ChessPiece \<Rightarrow> int" where
  "piece_col p = to_square (pos_x p)"

text \<open>The piece a hit test at the centre of square \<open>(row, col)\<close> finds.\<close>

definition pieceAt :: "scene \<Rightarrow> int \<Rightarrow> int \<Rightarrow> ChessPiece option" where
  "pieceAt s row col = itemAt s (col * 50 + 25) (row * 50 + 25)"

subsection \<open>\<open>ChessBoard::setupPieces\<close>\<close>

definition setupPieces :: scene where
  "setupPieces = foldl addItem []
     [new_ChessPiece 0 0 Rook True,
      new_ChessPiece 350 0 Rook True,
      new_ChessPiece 50 0 Knight True,
      new_ChessPiece 300 0 Knight True,
      new_ChessPiece 100 0 Bishop True,
      new_ChessPiece 250 0 Bishop True,
      new_ChessPiece 150 0 Queen True,
      new_ChessPiece 200 0 King True,
      new_ChessPiece 0 50 Pawn True,
      new_ChessPiece 50 50 Pawn True,
      new_ChessPiece 100 50 Pawn True,
      new_ChessPiece 150 50 Pawn True,
      new_ChessPiece 200 50 Pawn True,
      new_ChessPiece 250 50 Pawn True,
      new_ChessPiece 300 50 Pawn True,
      new_ChessPiece 350 50 Pawn True,
      new_ChessPiece 0 350 Rook False,
      new_ChessPiece 350 350 Rook False,
      new_ChessPiece 50 350 Knight False,
      new_ChessPiece 300 350 Knight False,
      new_ChessPiece 100 350 Bishop False,
      new_ChessPiece 250 350 Bishop False,
      new_ChessPiece 150 350 Queen False,
      new_ChessPiece 200 350 King False,
      new_ChessPiece 0 300 Pawn False,
      new_ChessPiece 50 300 Pawn False,
      new_ChessPiece 100 300 Pawn False,
      new_ChessPiece 150 300 Pawn False,
      new_ChessPiece 200 300 Pawn False,
      new_ChessPiece 250 300 Pawn False,
      new_ChessPiece 300 300 Pawn False,
      new_ChessPiece 350 300 Pawn False]"

subsection \<open>\<open>ChessBoard::isPathBlocked\<close>\<close>

text \<open>
  The \<open>while\<close> loop of \<open>isPathBlocked\<close> runs until the current square is the end square;
  nothing in it bounds the number of rounds. It is therefore a partial function: \<open>None\<close>
  stands for a loop that never leaves.
\<close>

partial_function (option) isPathBlocked_loop ::
  "scene \<Rightarrow> int \<Rightarrow> int \<Rightarrow> int \<Rightarrow> int \<Rightarrow> int \<Rightarrow> int \<Rightarrow> bool option" where
  "isPathBlocked_loop s rowDirection colDirection endRow endCol currentRow currentCol =
     (if currentRow \<noteq> endRow \<or> currentCol \<noteq> endCol then
        (if itemAt s (currentCol * 50 + 25) (currentRow * 50 + 25) \<noteq> None then Some True
         else isPathBlocked_loop s rowDirection colDirection endRow endCol
                (currentRow + rowDirection) (currentCol + colDirection))
      else Some False)"

declare isPathBlocked_loop.simps [code]

definition isPathBlocked :: "scene \<Rightarrow> int \<Rightarrow> int \<Rightarrow> int \<Rightarrow> int \<Rightarrow> bool option" where
  "isPathBlocked s startRow startCol endRow endCol =
     (if startRow = endRow \<and> startCol = endCol then Some False
      else
        let rowDirection = (if endRow > startRow then 1 else if endRow < startRow then - 1 else 0);
            colDirection = (if endCol > startCol then 1 else if endCol < startCol then - 1 else 0)
        in isPathBlocked_loop s rowDirection colDirection endRow endCol
             (startRow + rowDirection) (startCol + colDirection))"

subsection \<open>The pawn rules\<close>

text \<open>\<open>destinationPiece && destinationPiece->isWhitePiece() != piece->isWhitePiece()\<close>\<close>

definition opposite_colour :: "ChessPiece option \<Rightarrow> ChessPiece \<Rightarrow> bool" where
  "opposite_colour destinationPiece piece =
     (case destinationPiece of None \<Rightarrow> False | Some d \<Rightarrow> m_isWhite d \<noteq> m_isWhite piece)"

text \<open>\<open>destinationPiece && destinationPiece->isWhitePiece() == piece->isWhitePiece()\<close>\<close>

definition same_colour :: "ChessPiece option \<Rightarrow> ChessPiece \<Rightarrow> bool" where
  "same_colour destinationPiece piece =
     (case destinationPiece of None \<Rightarrow> False | Some d \<Rightarrow> m_isWhite d = m_isWhite piece)"

fun isValidMoveWhitePawn :: "scene \<Rightarrow> ChessPiece option \<Rightarrow> int \<Rightarrow> int \<Rightarrow> bool option" where
  "isValidMoveWhitePawn s None newRow newCol = Some False"
| "isValidMoveWhitePawn s (Some piece) newRow newCol =
     (let currentRow = piece_row piece;
          currentCol = piece_col piece;
          rowDiff = newRow - currentRow;
          colDiff = newCol - currentCol;
          destinationPiece = itemAt s (newCol * 50 + 25) (newRow * 50 + 25);
          capture = Some (\<bar>colDiff\<bar> = 1 \<and> rowDiff = - 1 \<and> opposite_colour destinationPiece piece)
      in
        if colDiff = 0 \<and> destinationPiece = None then
          (if rowDiff = 1 then Some True
           else if rowDiff = 2 \<and> currentRow = 6 then
             (case isPathBlocked s currentRow currentCol newRow newCol of
                None \<Rightarrow> None
              | Some blocked \<Rightarrow> if \<not> blocked then Some True else capture)
           else capture)
        else capture)"

fun isValidMoveBlackPawn :: "scene \<Rightarrow> ChessPiece option \<Rightarrow> int \<Rightarrow> int \<Rightarrow> bool option" where
  "isValidMoveBlackPawn s None newRow newCol = Some False"
| "isValidMoveBlackPawn s (Some piece) newRow newCol =
     (let currentRow = piece_row piece;
          currentCol = piece_col piece;
          rowDiff = newRow - currentRow;
          colDiff = newCol - currentCol;
          destinationPiece = itemAt s (newCol * 50 + 25) (newRow * 50 + 25);
          capture = Some (\<bar>colDiff\<bar> = 1 \<and> rowDiff = 1 \<and> opposite_colour destinationPiece piece)
      in
        if colDiff = 0 \<and> destinationPiece = None then
          (if rowDiff = - 1 then Some True
           else if rowDiff = - 2 \<and> currentRow = 1 then
             (case isPathBlocked s currentRow currentCol newRow newCol of
                None \<Rightarrow> None
              | Some blocked \<Rightarrow> if \<not> blocked then Some True else capture)
           else capture)
        else capture)"

subsection \<open>\<open>ChessBoard::isValidMove\<close>\<close>

text \<open>\<open>cond && !isPathBlocked(...)\<close> with the short circuit of \<open>&&\<close>: the path is walked only
  when \<open>cond\<close> holds.\<close>

definition and_not_blocked :: "bool \<Rightarrow> bool option \<Rightarrow> bool option" where
  "and_not_blocked cond blocked =
     (if cond then (case blocked of None \<Rightarrow> None | Some b \<Rightarrow> Some (\<not> b)) else Some False)"

fun isValidMove :: "scene \<Rightarrow> ChessPiece option \<Rightarrow> int \<Rightarrow> int \<Rightarrow> bool option" where
  "isValidMove s None newRow newCol = Some False"
| "isValidMove s (Some piece) newRow newCol =
     (let currentRow = piece_row piece;
          currentCol = piece_col piece
      in
        if newRow = currentRow \<and> newCol = currentCol then Some False
        else
          let rowDiff = newRow - currentRow;
              colDiff = newCol - currentCol;
              absRowDiff = \<bar>rowDiff\<bar>;
              absColDiff = \<bar>colDiff\<bar>;
              destinationPiece = itemAt s (newCol * 50 + 25) (newRow * 50 + 25)
          in
            if same_colour destinationPiece piece then Some False
            else
              (case m_pieceType piece of
                 Pawn \<Rightarrow>
                   if m_isWhite piece then isValidMoveWhitePawn s (Some piece) newRow newCol
                   else isValidMoveBlackPawn s (Some piece) newRow newCol
               | Rook \<Rightarrow>
                   if newRow \<noteq> currentRow \<and> newCol \<noteq> currentCol then Some False
                   else if rowDiff > 1 \<or> colDiff > 1 then
                     (case isPathBlocked s currentRow currentCol newRow newCol of
                        None \<Rightarrow> None
                      | Some blocked \<Rightarrow> if blocked then Some False else Some True)
                   else Some True
               | Knight \<Rightarrow>
                   Some ((absRowDiff = 2 \<and> absColDiff = 1) \<or> (absRowDiff = 1 \<and> absColDiff = 2))
               | Bishop \<Rightarrow>
                   and_not_blocked (absRowDiff = absColDiff)
                     (isPathBlocked s currentRow currentCol newRow newCol)
               | Queen \<Rightarrow>
                   and_not_blocked (absRowDiff = absColDiff \<or> rowDiff = 0 \<or> colDiff = 0)
                     (isPathBlocked s currentRow currentCol newRow newCol)
               | King \<Rightarrow>
                   and_not_blocked
                     (absRowDiff \<le> 1 \<and> absColDiff \<le> 1 \<and> absRowDiff + absColDiff > 0)
                     (isPathBlocked s currentRow currentCol newRow newCol)))"

subsection \<open>Promotion and \<open>ChessBoard::movePiece\<close>\<close>

definition isPawnPromotion :: "ChessPiece \<Rightarrow> int \<Rightarrow> bool" where
  "isPawnPromotion piece newRow \<longleftrightarrow>
     m_pieceType piece = Pawn \<and> (newRow = 0 \<or> newRow = 7)"

definition promotePawn :: "scene \<Rightarrow> ChessPiece \<Rightarrow> int \<Rightarrow> int \<Rightarrow> scene" where
  "promotePawn s piece newRow newCol =
     (let isWhite = m_isWhite piece
      in addItem (removeItem piece s) (new_ChessPiece (newCol * 50) (newRow * 50) Queen isWhite))"

text \<open>The capture loop of \<open>movePiece\<close>: the first item at the destination that is another
  piece of the other colour leaves the scene, and the loop \<open>break\<close>s.\<close>

fun capture_loop :: "ChessPiece list \<Rightarrow> ChessPiece \<Rightarrow> scene \<Rightarrow> scene" where
  "capture_loop [] piece s = s"
| "capture_loop (potentialCapturedPiece # rest) piece s =
     (if potentialCapturedPiece \<noteq> piece \<and> m_isWhite potentialCapturedPiece \<noteq> m_isWhite piece
      then removeItem potentialCapturedPiece s
      else capture_loop rest piece s)"

text \<open>\<open>movePiece\<close> returns its \<open>bool\<close> together with the scene it leaves behind.\<close>

fun movePiece :: "scene \<Rightarrow> ChessPiece option \<Rightarrow> int \<Rightarrow> int \<Rightarrow> (bool \<times> scene) option" where
  "movePiece s None row col = Some (False, s)"
| "movePiece s (Some piece) row col =
     (case isValidMove s (Some piece) row col of
        None \<Rightarrow> None
      | Some valid \<Rightarrow>
          if valid then
            (let itemsAtDestination = items_in_rect s (col * 50) (row * 50);
                 s1 = capture_loop itemsAtDestination piece s
             in if isPawnPromotion piece row then Some (True, promotePawn s1 piece row col)
                else Some (True, setPos piece (col * 50) (row * 50) s1))
          else Some (False, s))"

section \<open>Notions for stating the properties\<close>

subsection \<open>Squares on a line\<close>

text \<open>Two squares share a row, a column or a diagonal.\<close>

definition aligned_squares :: "int \<Rightarrow> int \<Rightarrow> int \<Rightarrow> int \<Rightarrow> bool" where
  "aligned_squares r c r' c' \<longleftrightarrow> r = r' \<or> c = c' \<or> \<bar>r' - r\<bar> = \<bar>c' - c\<bar>"

definition path_length :: "int \<Rightarrow> int \<Rightarrow> int \<Rightarrow> int \<Rightarrow> nat" where
  "path_length r c r' c' = nat (max \<bar>r' - r\<bar> \<bar>c' - c\<bar>)"

text \<open>The squares strictly between \<open>(r, c)\<close> and \<open>(r', c')\<close>, in unit steps of the sign of
  each axis.\<close>

definition intervening :: "int \<Rightarrow> int \<Rightarrow> int \<Rightarrow> int \<Rightarrow> (int \<times> int) list" where
  "intervening r c r' c' =
     map (\<lambda>k. (r + int k * sgn (r' - r), c + int k * sgn (c' - c))) [1..<path_length r c r' c']"

definition path_occupied :: "scene \<Rightarrow> int \<Rightarrow> int \<Rightarrow> int \<Rightarrow> int \<Rightarrow> bool" where
  "path_occupied s r c r' c' =
     list_ex (\<lambda>(r'', c''). pieceAt s r'' c'' \<noteq> None) (intervening r c r' c')"

subsection \<open>Well-formed scenes\<close>

text \<open>
  Every position the program ever gives a piece is \<open>(col * 50, row * 50)\<close>, and no move
  puts a piece on an occupied square. A scene is well formed when every piece stands on
  the grid and no two pieces share a position.
\<close>

definition on_square :: "ChessPiece \<Rightarrow> int \<Rightarrow> int \<Rightarrow> bool" where
  "on_square p row col \<longleftrightarrow> pos_x p = col * 50 \<and> pos_y p = row * 50"

definition position :: "ChessPiece \<Rightarrow> int \<times> int" where
  "position p = (pos_x p, pos_y p)"

definition on_grid :: "ChessPiece \<Rightarrow> bool" where
  "on_grid p \<longleftrightarrow> 50 dvd pos_x p \<and> 50 dvd pos_y p"

definition well_formed :: "scene \<Rightarrow> bool" where
  "well_formed s \<longleftrightarrow> list_all on_grid s \<and> distinct (map position s)"

subsection \<open>The outcome of a move\<close>

text \<open>The piece that stands on the destination after a legal move: the mover at its new
  position, or the queen that replaces a promoted pawn.\<close>

definition arrived :: "ChessPiece \<Rightarrow> int \<Rightarrow> int \<Rightarrow> ChessPiece" where
  "arrived piece row col =
     (if isPawnPromotion piece row
      then new_ChessPiece (col * 50) (row * 50) Queen (m_isWhite piece)
      else piece\<lparr>pos_x := col * 50, pos_y := row * 50\<rparr>)"

text \<open>The pieces a move leaves alone: all but the mover and whatever stands on the
  destination.\<close>

definition bystanders :: "scene \<Rightarrow> ChessPiece \<Rightarrow> int \<Rightarrow> int \<Rightarrow> ChessPiece list" where
  "bystanders s piece row col = filter (\<lambda>q. q \<noteq> piece \<and> \<not> on_square q row col) s"

section \<open>Lemmas\<close>

subsection \<open>The walk of \<open>isPathBlocked\<close>\<close>

text \<open>When the end square lies \<open>n\<close> steps ahead of the current square, the loop returns, and
  it answers \<open>true\<close> exactly when one of the squares before the end square is occupied.\<close>

lemma isPathBlocked_loop_steps:
  assumes dir: "rd \<noteq> 0 \<or> cd \<noteq> 0"
  shows "cr = er - int n * rd \<Longrightarrow> cc = ec - int n * cd \<Longrightarrow>
         isPathBlocked_loop s rd cd er ec cr cc =
         Some (\<exists>k. 0 < k \<and> k \<le> n \<and> pieceAt s (er - int k * rd) (ec - int k * cd) \<noteq> None)"
proof (induction n arbitrary: cr cc)
  case 0
  then show ?case by (subst isPathBlocked_loop.simps) simp
next
  case (Suc n)
  let ?occ = "\<lambda>k. pieceAt s (er - int k * rd) (ec - int k * cd) \<noteq> None"
  have ne: "cr \<noteq> er \<or> cc \<noteq> ec"
    using dir Suc.prems by auto
  have next_sq: "cr + rd = er - int n * rd" "cc + cd = ec - int n * cd"
    using Suc.prems by (simp_all add: algebra_simps)
  have here: "itemAt s (cc * 50 + 25) (cr * 50 + 25) = pieceAt s (er - int (Suc n) * rd) (ec - int (Suc n) * cd)"
    unfolding pieceAt_def Suc.prems ..
  have unfold: "isPathBlocked_loop s rd cd er ec cr cc =
      (if ?occ (Suc n) then Some True else isPathBlocked_loop s rd cd er ec (cr + rd) (cc + cd))"
    using ne by (subst isPathBlocked_loop.simps) (simp only: here if_True)
  have split: "(\<exists>k. 0 < k \<and> k \<le> Suc n \<and> ?occ k) \<longleftrightarrow> ?occ (Suc n) \<or> (\<exists>k. 0 < k \<and> k \<le> n \<and> ?occ k)"
    by (metis le_Suc_eq zero_less_Suc)
  show ?case
    unfolding unfold split using Suc.IH[OF next_sq] by simp
qed

lemma path_occupied_iff:
  "path_occupied s r c r' c' \<longleftrightarrow>
     (\<exists>k. 0 < k \<and> k < path_length r c r' c' \<and>
          pieceAt s (r + int k * sgn (r' - r)) (c + int k * sgn (c' - c)) \<noteq> None)"
proof -
  have "\<And>k. k \<in> set [1..<path_length r c r' c'] \<longleftrightarrow> 0 < k \<and> k < path_length r c r' c'"
    by auto
  then show ?thesis
    unfolding path_occupied_def intervening_def list_ex_iff by (simp add: Bex_def)
qed

lemma aligned_end:
  assumes "aligned_squares r c r' c'"
  shows "r' = r + int (path_length r c r' c') * sgn (r' - r)"
    and "c' = c + int (path_length r c r' c') * sgn (c' - c)"
  using assms by (auto simp: aligned_squares_def path_length_def sgn_if max_def)

lemma isPathBlocked_aligned:
  assumes al: "aligned_squares r c r' c'" and ne: "r \<noteq> r' \<or> c \<noteq> c'"
  shows "isPathBlocked s r c r' c' = Some (path_occupied s r c r' c')"
proof -
  define n where "n = path_length r c r' c'"
  define rd where "rd = sgn (r' - r)"
  define cd where "cd = sgn (c' - c)"
  have dir: "rd \<noteq> 0 \<or> cd \<noteq> 0" using ne by (auto simp: rd_def cd_def sgn_if)
  have ends: "r' = r + int n * rd" "c' = c + int n * cd"
    using aligned_end[OF al] by (simp_all add: n_def rd_def cd_def)
  have npos: "0 < n" using ne by (auto simp: n_def path_length_def)
  then obtain m where m: "n = Suc m" by (cases n) auto
  have start: "r + rd = r' - int m * rd" "c + cd = c' - int m * cd"
    using ends m by (simp_all add: algebra_simps)
  have "isPathBlocked s r c r' c' = isPathBlocked_loop s rd cd r' c' (r + rd) (c + cd)"
    using ne by (auto simp: isPathBlocked_def rd_def cd_def sgn_if Let_def)
  also have "\<dots> = Some (\<exists>k. 0 < k \<and> k \<le> m \<and> pieceAt s (r' - int k * rd) (c' - int k * cd) \<noteq> None)"
    by (rule isPathBlocked_loop_steps[OF dir start])
  also have "(\<exists>k. 0 < k \<and> k \<le> m \<and> pieceAt s (r' - int k * rd) (c' - int k * cd) \<noteq> None)
     \<longleftrightarrow> (\<exists>j. 0 < j \<and> j < n \<and> pieceAt s (r + int j * rd) (c + int j * cd) \<noteq> None)"
    (is "?L \<longleftrightarrow> ?R")
  proof
    assume ?L
    then obtain k where k: "0 < k" "k \<le> m" "pieceAt s (r' - int k * rd) (c' - int k * cd) \<noteq> None"
      by blast
    have "r' - int k * rd = r + int (n - k) * rd" "c' - int k * cd = c + int (n - k) * cd"
      using ends k m by (simp_all add: algebra_simps of_nat_diff)
    with k m show ?R by (intro exI[of _ "n - k"]) auto
  next
    assume ?R
    then obtain j where j: "0 < j" "j < n" "pieceAt s (r + int j * rd) (c + int j * cd) \<noteq> None"
      by blast
    have "r + int j * rd = r' - int (n - j) * rd" "c + int j * cd = c' - int (n - j) * cd"
      using ends j by (simp_all add: algebra_simps of_nat_diff)
    with j m show ?L by (intro exI[of _ "n - j"]) auto
  qed
  finally show ?thesis
    by (simp add: path_occupied_iff n_def rd_def cd_def)
qed

lemma isPathBlocked_same: "isPathBlocked s r c r c = Some False"
  by (simp add: isPathBlocked_def)

lemma isPathBlocked_total:
  assumes "aligned_squares r c r' c'"
  shows "\<exists>b. isPathBlocked s r c r' c' = Some b"
proof (cases "r \<noteq> r' \<or> c \<noteq> c'")
  case True
  then show ?thesis using isPathBlocked_aligned[OF assms] by blast
next
  case False
  then show ?thesis by (auto simp: isPathBlocked_same)
qed

subsection \<open>Every legality query returns\<close>

lemma ex_bool [simp]: "\<exists>y. y" "\<exists>y. \<not> y" "Ex Not"
  by (rule exI[of _ True], simp) (rule exI[of _ False], simp)+

lemma isPathBlocked_defined:
  "aligned_squares r c r' c' \<Longrightarrow> isPathBlocked s r c r' c' \<noteq> None"
  using isPathBlocked_total[of r c r' c' s] by auto

lemma and_not_blocked_defined:
  assumes "cond \<Longrightarrow> blocked \<noteq> None"
  shows "and_not_blocked cond blocked \<noteq> None"
  using assms by (cases cond) (auto simp: and_not_blocked_def)

lemma isValidMoveWhitePawn_defined: "isValidMoveWhitePawn s po newRow newCol \<noteq> None"
proof (cases po)
  case None
  then show ?thesis by simp
next
  case (Some piece)
  have "isPathBlocked s (piece_row piece) (piece_col piece) newRow newCol \<noteq> None"
    if "newCol - piece_col piece = 0"
    using that by (intro isPathBlocked_defined) (simp add: aligned_squares_def)
  then show ?thesis
    using Some by (auto simp: Let_def)
qed

lemma isValidMoveBlackPawn_defined: "isValidMoveBlackPawn s po newRow newCol \<noteq> None"
proof (cases po)
  case None
  then show ?thesis by simp
next
  case (Some piece)
  have "isPathBlocked s (piece_row piece) (piece_col piece) newRow newCol \<noteq> None"
    if "newCol - piece_col piece = 0"
    using that by (intro isPathBlocked_defined) (simp add: aligned_squares_def)
  then show ?thesis
    using Some by (auto simp: Let_def)
qed

lemma isValidMove_defined: "isValidMove s po newRow newCol \<noteq> None"
proof (cases po)
  case None
  then show ?thesis by simp
next
  case (Some piece)
  let ?r = "piece_row piece" and ?c = "piece_col piece"
  let ?blocked = "isPathBlocked s ?r ?c newRow newCol"
  have al: "?blocked \<noteq> None" if "aligned_squares ?r ?c newRow newCol"
    using that by (rule isPathBlocked_defined)
  show ?thesis
  proof (cases "m_pieceType piece")
    case Pawn
    then show ?thesis
      using Some isValidMoveWhitePawn_defined[of s "Some piece" newRow newCol]
        isValidMoveBlackPawn_defined[of s "Some piece" newRow newCol]
      by (simp del: isValidMoveWhitePawn.simps isValidMoveBlackPawn.simps add: Let_def)
  next
    case Rook
    have "?blocked \<noteq> None" if "\<not> (newRow \<noteq> ?r \<and> newCol \<noteq> ?c)"
      using that by (intro al) (auto simp: aligned_squares_def)
    then show ?thesis using Some Rook by (auto simp: Let_def)
  next
    case Knight
    then show ?thesis using Some by (simp add: Let_def)
  next
    case Bishop
    have "and_not_blocked (\<bar>newRow - ?r\<bar> = \<bar>newCol - ?c\<bar>) ?blocked \<noteq> None"
      by (intro and_not_blocked_defined al) (simp add: aligned_squares_def)
    then show ?thesis using Some Bishop by (simp add: Let_def)
  next
    case Queen
    have "and_not_blocked (\<bar>newRow - ?r\<bar> = \<bar>newCol - ?c\<bar> \<or> newRow - ?r = 0 \<or> newCol - ?c = 0)
            ?blocked \<noteq> None"
      by (intro and_not_blocked_defined al) (auto simp: aligned_squares_def)
    then show ?thesis using Some Queen by (simp add: Let_def)
  next
    case King
    have "and_not_blocked (\<bar>newRow - ?r\<bar> \<le> 1 \<and> \<bar>newCol - ?c\<bar> \<le> 1 \<and> \<bar>newRow - ?r\<bar> + \<bar>newCol - ?c\<bar> > 0)
            ?blocked \<noteq> None"
      by (intro and_not_blocked_defined al) (auto simp: aligned_squares_def)
    then show ?thesis using Some King by (simp add: Let_def)
  qed
qed

subsection \<open>Hit tests in a well-formed scene\<close>

lemma to_square_times [simp]: "to_square (k * 50) = k"
proof -
  have "(- k * 50) div 50 = - k"
    by (rule nonzero_mult_div_cancel_right) simp
  then show ?thesis by (simp add: to_square_def)
qed

lemma to_square_times' [simp]: "to_square (50 * k) = k"
  using to_square_times[of k] by (simp add: mult.commute)

lemma on_grid_on_square: "on_grid p \<Longrightarrow> on_square p (piece_row p) (piece_col p)"
  by (auto simp: on_grid_def on_square_def piece_row_def piece_col_def elim!: dvdE)

lemma on_square_row_col: "on_square p row col \<Longrightarrow> piece_row p = row \<and> piece_col p = col"
  by (simp add: on_square_def piece_row_def piece_col_def)

lemma contains_point_centre:
  "on_grid p \<Longrightarrow> contains_point p (col * 50 + 25) (row * 50 + 25) \<longleftrightarrow> on_square p row col"
  by (auto simp: on_grid_def contains_point_def on_square_def elim!: dvdE)

lemma in_rect_square:
  "on_grid p \<Longrightarrow> \<bar>pos_x p - col * 50\<bar> < 50 \<and> \<bar>pos_y p - row * 50\<bar> < 50 \<longleftrightarrow> on_square p row col"
  by (auto simp: on_grid_def on_square_def elim!: dvdE)

lemma on_square_position: "on_square p row col \<longleftrightarrow> position p = (col * 50, row * 50)"
  by (auto simp: on_square_def position_def)

lemma well_formed_on_grid: "well_formed s \<Longrightarrow> p \<in> set s \<Longrightarrow> on_grid p"
  by (simp add: well_formed_def list_all_iff)

lemma well_formed_unique:
  "well_formed s \<Longrightarrow> p \<in> set s \<Longrightarrow> q \<in> set s \<Longrightarrow> position p = position q \<Longrightarrow> p = q"
  by (auto simp: well_formed_def distinct_map dest: inj_onD)

lemma well_formed_distinct: "well_formed s \<Longrightarrow> distinct s"
  by (simp add: well_formed_def distinct_map)

lemma pieceAt_find: "well_formed s \<Longrightarrow> pieceAt s row col = find (\<lambda>p. on_square p row col) s"
  unfolding pieceAt_def itemAt_def
  by (rule find_cong) (auto simp: contains_point_centre well_formed_on_grid)

lemma items_in_rect_filter:
  "well_formed s \<Longrightarrow> items_in_rect s (col * 50) (row * 50) = filter (\<lambda>p. on_square p row col) s"
  unfolding items_in_rect_def
  by (rule filter_cong) (auto simp: in_rect_square well_formed_on_grid)

lemma pieceAt_Some_iff:
  assumes "well_formed s"
  shows "pieceAt s row col = Some q \<longleftrightarrow> q \<in> set s \<and> on_square q row col"
proof
  assume "pieceAt s row col = Some q"
  then show "q \<in> set s \<and> on_square q row col"
    using assms by (auto simp: pieceAt_find find_Some_iff)
next
  assume q: "q \<in> set s \<and> on_square q row col"
  then obtain q' where q': "pieceAt s row col = Some q'"
    using assms by (cases "pieceAt s row col") (auto simp: pieceAt_find find_None_iff)
  then have "q' \<in> set s \<and> on_square q' row col"
    using assms by (auto simp: pieceAt_find find_Some_iff)
  then have "q' = q"
    using q assms by (auto simp: on_square_position intro: well_formed_unique)
  then show "pieceAt s row col = Some q" using q' by simp
qed

lemma pieceAt_None_iff:
  assumes "well_formed s"
  shows "pieceAt s row col = None \<longleftrightarrow> (\<forall>q \<in> set s. \<not> on_square q row col)"
  using assms by (auto simp: pieceAt_find find_None_iff)

subsection \<open>What a valid move does to the scene\<close>

lemma isValidMove_True_moves:
  assumes "isValidMove s (Some piece) row col = Some True"
  shows "\<not> (row = piece_row piece \<and> col = piece_col piece)"
proof
  assume "row = piece_row piece \<and> col = piece_col piece"
  then have "isValidMove s (Some piece) row col = Some False" by simp
  with assms show False by simp
qed

lemma isValidMove_True_not_same:
  assumes "isValidMove s (Some piece) row col = Some True"
  shows "\<not> same_colour (pieceAt s row col) piece"
proof
  assume "same_colour (pieceAt s row col) piece"
  then have "isValidMove s (Some piece) row col = Some False"
    by (simp add: pieceAt_def Let_def)
  with assms show False by simp
qed

lemma find_filter_Cons: "find P xs = Some x \<Longrightarrow> \<exists>ys. filter P xs = x # ys"
  by (induction xs) (auto split: if_splits)

lemma well_formed_remove1: "well_formed s \<Longrightarrow> well_formed (remove1 q s)"
proof -
  assume wf: "well_formed s"
  have sub: "set (remove1 q s) \<subseteq> set s" by (rule set_remove1_subset)
  have "distinct (remove1 q s)" using wf by (simp add: well_formed_distinct)
  moreover have "inj_on position (set (remove1 q s))"
    using wf sub by (auto simp: well_formed_def distinct_map intro: inj_on_subset)
  moreover have "list_all on_grid (remove1 q s)"
    using wf sub by (auto simp: well_formed_def list_all_iff)
  ultimately show ?thesis by (simp add: well_formed_def distinct_map)
qed

lemma capture_loop_effect:
  assumes wf: "well_formed s"
    and ns: "\<not> same_colour (pieceAt s row col) piece"
    and np: "\<not> on_square piece row col"
  defines "s1 \<equiv> capture_loop (items_in_rect s (col * 50) (row * 50)) piece s"
  shows "set s1 = {q \<in> set s. \<not> on_square q row col}"
    and "well_formed s1"
    and "length s1 = length s - (if pieceAt s row col = None then 0 else 1)"
proof -
  have "set s1 = {q \<in> set s. \<not> on_square q row col} \<and> well_formed s1 \<and>
        length s1 = length s - (if pieceAt s row col = None then 0 else 1)"
  proof (cases "pieceAt s row col")
    case None
    then have no: "\<forall>q \<in> set s. \<not> on_square q row col"
      using wf by (simp add: pieceAt_None_iff)
    then have "filter (\<lambda>p. on_square p row col) s = []"
      by (simp add: filter_empty_conv)
    then have "s1 = s" using wf by (simp add: s1_def items_in_rect_filter)
    then show ?thesis using no wf None by auto
  next
    case (Some q)
    then have q: "q \<in> set s" "on_square q row col"
      using wf by (simp_all add: pieceAt_Some_iff)
    have only: "q' = q" if "q' \<in> set s" "on_square q' row col" for q'
    proof -
      have "pieceAt s row col = Some q'" using that wf by (simp add: pieceAt_Some_iff)
      then have "Some q = Some q'" unfolding Some .
      then have "q = q'" by (rule Option.option.inject[THEN iffD1])
      then show ?thesis by (rule sym)
    qed
    obtain ys where ys: "filter (\<lambda>p. on_square p row col) s = q # ys"
      using Some wf find_filter_Cons by (fastforce simp: pieceAt_find)
    have "q \<noteq> piece" using q np by auto
    moreover have "m_isWhite q \<noteq> m_isWhite piece"
      using ns Some by (simp add: same_colour_def)
    ultimately have rem: "s1 = remove1 q s"
      using wf ys by (simp add: s1_def items_in_rect_filter removeItem_def)
    have ds: "distinct s" using wf by (rule well_formed_distinct)
    have "set (remove1 q s) = set s - {q}"
      using ds by (rule set_remove1_eq)
    moreover have "set s - {q} = {q' \<in> set s. \<not> on_square q' row col}"
    proof (rule set_eqI)
      fix x
      show "x \<in> set s - {q} \<longleftrightarrow> x \<in> {q' \<in> set s. \<not> on_square q' row col}"
        using q(2) only[of x] by blast
    qed
    ultimately have a: "set (remove1 q s) = {q' \<in> set s. \<not> on_square q' row col}"
      by (rule trans)
    have b: "length (remove1 q s) = length s - 1"
      using q by (simp add: length_remove1)
    have c: "well_formed (remove1 q s)"
      using wf by (rule well_formed_remove1)
    show ?thesis
      unfolding rem using a b c Some by simp
  qed
  then show "set s1 = {q \<in> set s. \<not> on_square q row col}" and "well_formed s1"
    and "length s1 = length s - (if pieceAt s row col = None then 0 else 1)"
    by simp_all
qed

lemma setPos_effect:
  assumes wf: "well_formed s1" and mem: "piece \<in> set s1"
    and free: "\<forall>q \<in> set s1. \<not> on_square q row col"
  defines "piece' \<equiv> piece\<lparr>pos_x := col * 50, pos_y := row * 50\<rparr>"
  shows "set (setPos piece (col * 50) (row * 50) s1) = insert piece' (set s1 - {piece})"
    and "well_formed (setPos piece (col * 50) (row * 50) s1)"
    and "length (setPos piece (col * 50) (row * 50) s1) = length s1"
proof -
  let ?g = "\<lambda>q. if q = piece then q\<lparr>pos_x := col * 50, pos_y := row * 50\<rparr> else q"
  have sp: "setPos piece (col * 50) (row * 50) s1 = map ?g s1" by (simp add: setPos_def)
  show "set (setPos piece (col * 50) (row * 50) s1) = insert piece' (set s1 - {piece})"
    using mem unfolding sp piece'_def by auto
  show "length (setPos piece (col * 50) (row * 50) s1) = length s1" by (simp add: sp)
  have pos': "position piece' = (col * 50, row * 50)" by (simp add: piece'_def position_def)
  have "inj_on (position \<circ> ?g) (set s1)"
  proof (rule inj_onI)
    fix a b assume ab: "a \<in> set s1" "b \<in> set s1" "(position \<circ> ?g) a = (position \<circ> ?g) b"
    show "a = b"
    proof (cases "a = piece \<or> b = piece")
      case False
      then show ?thesis using ab wf by (auto intro: well_formed_unique)
    next
      case True
      show ?thesis
      proof (rule ccontr)
        assume "a \<noteq> b"
        then obtain q where "q \<in> set s1" "position q = (col * 50, row * 50)"
          using True ab pos' by (auto simp: piece'_def split: if_splits)
        then show False using free by (auto simp: on_square_position)
      qed
    qed
  qed
  then have "distinct (map position (map ?g s1))"
    using wf by (simp add: distinct_map well_formed_distinct)
  moreover have "list_all on_grid (map ?g s1)"
    using wf by (auto simp: well_formed_def list_all_iff on_grid_def)
  ultimately show "well_formed (setPos piece (col * 50) (row * 50) s1)"
    by (simp add: sp well_formed_def)
qed

lemma promotePawn_effect:
  fixes piece :: ChessPiece
  assumes wf: "well_formed s1"
    and free: "\<forall>q \<in> set s1. \<not> on_square q row col"
  defines "queen \<equiv> new_ChessPiece (col * 50) (row * 50) Queen (m_isWhite piece)"
  shows "set (promotePawn s1 piece row col) = insert queen (set s1 - {piece})"
    and "well_formed (promotePawn s1 piece row col)"
    and "piece \<in> set s1 \<Longrightarrow> length (promotePawn s1 piece row col) = length s1"
proof -
  have pp: "promotePawn s1 piece row col = queen # remove1 piece s1"
    by (simp add: promotePawn_def addItem_def removeItem_def queen_def)
  show "set (promotePawn s1 piece row col) = insert queen (set s1 - {piece})"
    using wf by (simp add: pp well_formed_distinct)
  show "length (promotePawn s1 piece row col) = length s1" if "piece \<in> set s1"
  proof -
    have "0 < length s1" using that by (cases s1) auto
    then have "Suc (length s1 - 1) = length s1" by simp
    moreover have "length (queen # remove1 piece s1) = Suc (length s1 - 1)"
      using that by (simp add: length_remove1)
    ultimately show ?thesis unfolding pp by (rule ssubst[where P="\<lambda>n. length (queen # remove1 piece s1) = n", OF sym])
  qed
  have "position queen \<notin> position ` set (remove1 piece s1)"
  proof
    assume "position queen \<in> position ` set (remove1 piece s1)"
    then obtain q where "q \<in> set s1" "position q = (col * 50, row * 50)"
      using set_remove1_subset[of piece s1]
      by (auto simp: queen_def new_ChessPiece_def position_def)
    then show False using free by (auto simp: on_square_position)
  qed
  moreover have "on_grid queen" by (simp add: queen_def new_ChessPiece_def on_grid_def)
  ultimately show "well_formed (promotePawn s1 piece row col)"
    using well_formed_remove1[OF wf, of piece] by (simp add: pp well_formed_def)
qed

lemma on_square_inject: "on_square p r c \<Longrightarrow> on_square p r' c' \<Longrightarrow> r' = r \<and> c' = c"
  by (simp add: on_square_def)

lemma on_square_arrived: "on_square (arrived piece row col) row col"
  by (simp add: arrived_def on_square_def new_ChessPiece_def)

lemma set_bystanders:
  "set (bystanders s piece row col) = {q \<in> set s. \<not> on_square q row col} - {piece}"
  by (auto simp: bystanders_def)

lemma movePiece_legal:
  assumes wf: "well_formed s" and mem: "piece \<in> set s"
    and legal: "isValidMove s (Some piece) row col = Some True"
  shows "\<exists>s'. movePiece s (Some piece) row col = Some (True, s') \<and> well_formed s' \<and>
           set s' = insert (arrived piece row col) (set (bystanders s piece row col)) \<and>
           length s' = length s - (if pieceAt s row col = None then 0 else 1)"
proof -
  define s1 where "s1 = capture_loop (items_in_rect s (col * 50) (row * 50)) piece s"
  have src: "on_square piece (piece_row piece) (piece_col piece)"
    using wf mem by (intro on_grid_on_square well_formed_on_grid)
  have np: "\<not> on_square piece row col"
    using isValidMove_True_moves[OF legal] on_square_inject[OF src] by blast
  note eff = capture_loop_effect[OF wf isValidMove_True_not_same[OF legal] np, folded s1_def]
  have mem1: "piece \<in> set s1" using mem np by (simp add: eff(1))
  have free: "\<forall>q \<in> set s1. \<not> on_square q row col" by (simp add: eff(1))
  have by1: "set s1 - {piece} = set (bystanders s piece row col)"
    by (simp add: eff(1) set_bystanders)
  show ?thesis
  proof (cases "isPawnPromotion piece row")
    case True
    have mv: "movePiece s (Some piece) row col = Some (True, promotePawn s1 piece row col)"
      using legal True by (simp add: s1_def del: isValidMove.simps)
    show ?thesis
      using promotePawn_effect[OF eff(2) free, of piece] mem1 True eff(3) by1
      by (simp add: mv arrived_def del: movePiece.simps)
  next
    case False
    have mv: "movePiece s (Some piece) row col =
        Some (True, setPos piece (col * 50) (row * 50) s1)"
      using legal False by (simp add: s1_def del: isValidMove.simps)
    show ?thesis
      using setPos_effect[OF eff(2) mem1 free] False eff(3) by1
      by (simp add: mv arrived_def del: movePiece.simps)
  qed
qed

lemma pieceAt_cong:
  assumes "well_formed s" and "well_formed s'"
    and same: "\<And>q. q \<in> set s' \<and> on_square q r c \<longleftrightarrow> q \<in> set s \<and> on_square q r c"
  shows "pieceAt s' r c = pieceAt s r c"
proof (cases "pieceAt s r c")
  case None
  then have "\<forall>q \<in> set s. \<not> on_square q r c"
    using assms(1) by (simp add: pieceAt_None_iff)
  then have "\<forall>q \<in> set s'. \<not> on_square q r c"
    using same by blast
  then show ?thesis using None assms(2) by (simp add: pieceAt_None_iff)
next
  case (Some q)
  then have "q \<in> set s \<and> on_square q r c"
    using assms(1) by (simp add: pieceAt_Some_iff)
  then have "q \<in> set s' \<and> on_square q r c"
    using same by blast
  then show ?thesis using Some assms(2) by (simp add: pieceAt_Some_iff)
qed

lemma pieceAt_after_move:
  assumes wf: "well_formed s" and mem: "piece \<in> set s" and wf': "well_formed s'"
    and set': "set s' = insert (arrived piece row col) (set (bystanders s piece row col))"
    and moves: "\<not> (row = piece_row piece \<and> col = piece_col piece)"
  shows "pieceAt s' row col = Some (arrived piece row col)"
    and "pieceAt s' (piece_row piece) (piece_col piece) = None"
    and "\<not> (r = row \<and> c = col) \<Longrightarrow> \<not> (r = piece_row piece \<and> c = piece_col piece) \<Longrightarrow>
           pieceAt s' r c = pieceAt s r c"
proof -
  have src: "on_square piece (piece_row piece) (piece_col piece)"
    using wf mem by (intro on_grid_on_square well_formed_on_grid)
  show "pieceAt s' row col = Some (arrived piece row col)"
    using wf' set' by (simp add: pieceAt_Some_iff on_square_arrived)
  have "\<not> on_square q (piece_row piece) (piece_col piece)" if "q \<in> set s'" for q
  proof
    assume on: "on_square q (piece_row piece) (piece_col piece)"
    have "q \<noteq> arrived piece row col"
      using on_square_inject[OF on_square_arrived, of piece row col "piece_row piece" "piece_col piece"]
        on moves by auto
    then have "q \<in> set s" "q \<noteq> piece"
      using that set' by (auto simp: set_bystanders)
    moreover have "position q = position piece"
      using on src by (simp add: on_square_position)
    ultimately show False using well_formed_unique[OF wf _ mem] by blast
  qed
  then show "pieceAt s' (piece_row piece) (piece_col piece) = None"
    using wf' by (simp add: pieceAt_None_iff)
  show "pieceAt s' r c = pieceAt s r c"
    if "\<not> (r = row \<and> c = col)" "\<not> (r = piece_row piece \<and> c = piece_col piece)"
  proof (rule pieceAt_cong[OF wf wf'])
    fix q
    show "q \<in> set s' \<and> on_square q r c \<longleftrightarrow> q \<in> set s \<and> on_square q r c"
    proof (cases "on_square q r c")
      case False
      then show ?thesis by simp
    next
      case True
      have "q \<noteq> arrived piece row col"
        using on_square_inject[OF on_square_arrived, of piece row col r c] True that(1) by auto
      moreover have "q \<noteq> piece"
        using on_square_inject[OF src, of r c] True that(2) by auto
      moreover have "\<not> on_square q row col"
        using on_square_inject[OF True, of row col] that(1) by auto
      ultimately show ?thesis using True set' by (auto simp: set_bystanders)
    qed
  qed
qed

subsection \<open>Paths of two squares and the pawn rules\<close>

lemma intervening_two_rows: "intervening r c (r + 2) c = [(r + 1, c)]"
  by (simp add: intervening_def path_length_def upt_rec)

lemma intervening_two_rows_up: "intervening r c (r - 2) c = [(r - 1, c)]"
  by (simp add: intervening_def path_length_def upt_rec)

lemma isPathBlocked_two_down:
  "isPathBlocked s r c (r + 2) c = Some (pieceAt s (r + 1) c \<noteq> None)"
proof -
  have "isPathBlocked s r c (r + 2) c = Some (path_occupied s r c (r + 2) c)"
    by (rule isPathBlocked_aligned) (simp_all add: aligned_squares_def)
  then show ?thesis by (simp add: path_occupied_def intervening_two_rows)
qed

lemma isPathBlocked_two_up:
  "isPathBlocked s r c (r - 2) c = Some (pieceAt s (r - 1) c \<noteq> None)"
proof -
  have "isPathBlocked s r c (r - 2) c = Some (path_occupied s r c (r - 2) c)"
    by (rule isPathBlocked_aligned) (simp_all add: aligned_squares_def)
  then show ?thesis by (simp add: path_occupied_def intervening_two_rows_up)
qed

lemma isValidMoveWhitePawn_rule:
  "isValidMoveWhitePawn s (Some piece) newRow newCol =
     Some ((newCol = piece_col piece \<and> pieceAt s newRow newCol = None \<and>
              (newRow - piece_row piece = 1 \<or>
               newRow - piece_row piece = 2 \<and> piece_row piece = 6 \<and>
                 pieceAt s 7 (piece_col piece) = None))
         \<or> (\<bar>newCol - piece_col piece\<bar> = 1 \<and> newRow - piece_row piece = - 1 \<and>
              opposite_colour (pieceAt s newRow newCol) piece))"
proof (cases "newCol - piece_col piece = 0 \<and> pieceAt s newRow newCol = None \<and>
    newRow - piece_row piece = 2 \<and> piece_row piece = 6")
  case True
  then have nr: "newRow = 6 + 2" "newCol = piece_col piece" by simp_all
  have "isPathBlocked s 6 (piece_col piece) (6 + 2) (piece_col piece) =
      Some (pieceAt s (6 + 1) (piece_col piece) \<noteq> None)"
    by (rule isPathBlocked_two_down)
  then show ?thesis
    using True by (auto simp: Let_def pieceAt_def nr opposite_colour_def)
next
  case False
  then show ?thesis
    by (auto simp: Let_def pieceAt_def)
qed

text \<open>The black pawn mirrors the white one: it steps toward smaller rows, by two only from
  row 1, and captures toward larger rows.\<close>

lemma isValidMoveBlackPawn_rule:
  "isValidMoveBlackPawn s (Some piece) newRow newCol =
     Some ((newCol = piece_col piece \<and> pieceAt s newRow newCol = None \<and>
              (newRow - piece_row piece = - 1 \<or>
               newRow - piece_row piece = - 2 \<and> piece_row piece = 1 \<and>
                 pieceAt s 0 (piece_col piece) = None))
         \<or> (\<bar>newCol - piece_col piece\<bar> = 1 \<and> newRow - piece_row piece = 1 \<and>
              opposite_colour (pieceAt s newRow newCol) piece))"
proof (cases "newCol - piece_col piece = 0 \<and> pieceAt s newRow newCol = None \<and>
    newRow - piece_row piece = - 2 \<and> piece_row piece = 1")
  case True
  then have nr: "newRow = 1 - 2" "newCol = piece_col piece" by simp_all
  have "isPathBlocked s 1 (piece_col piece) (1 - 2) (piece_col piece) =
      Some (pieceAt s (1 - 1) (piece_col piece) \<noteq> None)"
    by (rule isPathBlocked_two_up)
  then show ?thesis
    using True by (auto simp: Let_def pieceAt_def nr opposite_colour_def)
next
  case False
  then show ?thesis
    by (auto simp: Let_def pieceAt_def)
qed

subsection \<open>Sliding pieces that do look at the path\<close>

lemma bishop_queen_blocked:
  assumes "m_pieceType piece = Bishop \<or> m_pieceType piece = Queen"
    and blocked: "path_occupied s (piece_row piece) (piece_col piece) newRow newCol"
  shows "isValidMove s (Some piece) newRow newCol = Some False"
proof (cases "newRow = piece_row piece \<and> newCol = piece_col piece")
  case True
  then show ?thesis by simp
next
  case False
  have al: "isPathBlocked s (piece_row piece) (piece_col piece) newRow newCol = Some True"
    if "aligned_squares (piece_row piece) (piece_col piece) newRow newCol"
    using isPathBlocked_aligned[OF that] False blocked by auto
  have "and_not_blocked cond (isPathBlocked s (piece_row piece) (piece_col piece) newRow newCol)
      = Some False"
    if "cond \<Longrightarrow> aligned_squares (piece_row piece) (piece_col piece) newRow newCol" for cond
    using that al by (cases cond) (auto simp: and_not_blocked_def)
  note this[of "\<bar>newRow - piece_row piece\<bar> = \<bar>newCol - piece_col piece\<bar>"]
    this[of "\<bar>newRow - piece_row piece\<bar> = \<bar>newCol - piece_col piece\<bar> \<or>
      newRow - piece_row piece = 0 \<or> newCol - piece_col piece = 0"]
  then show ?thesis
    using assms(1) False by (auto simp: Let_def aligned_squares_def)
qed

lemma rook_blocked_forward:
  assumes "m_pieceType piece = Rook"
    and blocked: "path_occupied s (piece_row piece) (piece_col piece) newRow newCol"
    and fwd: "newRow - piece_row piece > 1 \<or> newCol - piece_col piece > 1"
  shows "isValidMove s (Some piece) newRow newCol = Some False"
proof (cases "newRow \<noteq> piece_row piece \<and> newCol \<noteq> piece_col piece")
  case True
  then show ?thesis using assms(1) by (simp add: Let_def)
next
  case False
  then have "aligned_squares (piece_row piece) (piece_col piece) newRow newCol"
    by (auto simp: aligned_squares_def)
  moreover have "piece_row piece \<noteq> newRow \<or> piece_col piece \<noteq> newCol"
    using fwd by auto
  ultimately have "isPathBlocked s (piece_row piece) (piece_col piece) newRow newCol = Some True"
    using blocked by (simp add: isPathBlocked_aligned)
  then show ?thesis using assms(1) fwd False by (auto simp: Let_def)
qed

subsection \<open>A walk that never arrives\<close>

text \<open>Off a common line the loop of \<open>isPathBlocked\<close> steps past the end square for ever,
  already on the empty board.\<close>

lemma isPathBlocked_loop_diverges:
  assumes "isPathBlocked_loop s rd cd er ec cr cc = Some b"
  shows "\<not> (s = [] \<and> rd = cd \<and> cc - cr \<noteq> ec - er)"
proof (rule isPathBlocked_loop.raw_induct[where
      P = "\<lambda>s rd cd er ec cr cc b. \<not> (s = [] \<and> rd = cd \<and> cc - cr \<noteq> ec - er)", OF _ assms])
  fix loop :: "scene \<Rightarrow> int \<Rightarrow> int \<Rightarrow> int \<Rightarrow> int \<Rightarrow> int \<Rightarrow> int \<Rightarrow> bool option"
    and s rd cd er ec cr cc b
  assume IH: "\<And>s rd cd er ec cr cc b. loop s rd cd er ec cr cc = Some b \<Longrightarrow>
      \<not> (s = [] \<and> rd = cd \<and> cc - cr \<noteq> ec - er)"
    and step: "(if cr \<noteq> er \<or> cc \<noteq> ec then
        (if itemAt s (cc * 50 + 25) (cr * 50 + 25) \<noteq> None then Some True
         else loop s rd cd er ec (cr + rd) (cc + cd))
      else Some False) = Some b"
  show "\<not> (s = [] \<and> rd = cd \<and> cc - cr \<noteq> ec - er)"
  proof
    assume inv: "s = [] \<and> rd = cd \<and> cc - cr \<noteq> ec - er"
    then have ne: "cr \<noteq> er \<or> cc \<noteq> ec" by auto
    have "itemAt s (cc * 50 + 25) (cr * 50 + 25) = None" using inv by (simp add: itemAt_def)
    then have "loop s rd cd er ec (cr + rd) (cc + cd) = Some b"
      using step ne by simp
    from IH[OF this] inv show False by simp
  qed
qed

lemma isPathBlocked_not_aligned: "isPathBlocked [] 0 0 1 2 = None"
proof (rule ccontr)
  assume "isPathBlocked [] 0 0 1 2 \<noteq> None"
  then obtain b where "isPathBlocked_loop [] 1 1 1 2 1 1 = Some b"
    by (auto simp: isPathBlocked_def)
  from isPathBlocked_loop_diverges[OF this] show False by simp
qed

section \<open>Null moves and friendly fire\<close>

text \<open>
  Claim C6. Whatever the scene and whatever the piece, \<open>isValidMove\<close> answers \<open>false\<close> when
  the destination is the square the piece stands on.
\<close>

theorem isValidMove_null_move:
  "isValidMove s (Some piece) (piece_row piece) (piece_col piece) = Some False"
  by simp

text \<open>
  Claim C5. Whatever the scene, the piece and its kind, \<open>isValidMove\<close> answers \<open>false\<close> when
  the hit test at the destination finds a piece of the colour of the mover. The answer is
  given before the rules of the piece kinds are looked at, so it is the same for every
  kind and no path is walked for it.
\<close>

theorem isValidMove_same_colour:
  assumes "pieceAt s newRow newCol = Some d" and "m_isWhite d = m_isWhite piece"
  shows "isValidMove s (Some piece) newRow newCol = Some False"
  using assms by (simp add: pieceAt_def same_colour_def Let_def)

text \<open>In the starting position the rook on \<open>(7, 0)\<close> may not go to \<open>(7, 3)\<close>, where the
  queen of its own colour stands.\<close>

theorem isValidMove_same_colour_witness:
  "pieceAt setupPieces 7 3 = Some (new_ChessPiece 150 350 Queen False) \<and>
   m_isWhite (new_ChessPiece 150 350 Queen False) = m_isWhite (new_ChessPiece 0 350 Rook False) \<and>
   isValidMove setupPieces (Some (new_ChessPiece 0 350 Rook False)) 7 3 = Some False"
proof -
  have h1: "pieceAt setupPieces 7 3 = Some (new_ChessPiece 150 350 Queen False)"
    by code_simp
  have h2: "m_isWhite (new_ChessPiece 150 350 Queen False) =
      m_isWhite (new_ChessPiece 0 350 Rook False)"
    by code_simp
  show ?thesis
    by (intro conjI h1 h2 isValidMove_same_colour[OF h1 h2])
qed

section \<open>Sliding pieces and the path\<close>

text \<open>
  Claim C1. A rook, bishop or queen move whose path holds a piece in between should be
  rejected. For the bishop and the queen it is (\<open>bishop_queen_blocked\<close>), and for a rook
  that moves toward larger rows or columns too (\<open>rook_blocked_forward\<close>). The rook asks
  for the path only when \<open>rowDiff > 1 || colDiff > 1\<close>, with the signed differences: toward
  smaller rows or columns the path is never walked. In the starting position the rook on
  \<open>(7, 0)\<close> may jump over the pawn on \<open>(6, 0)\<close> to \<open>(5, 0)\<close>.
\<close>

theorem rook_jumps_over_piece:
  "pieceAt setupPieces 7 0 = Some (new_ChessPiece 0 350 Rook False) \<and>
   pieceAt setupPieces 6 0 = Some (new_ChessPiece 0 300 Pawn False) \<and>
   intervening 7 0 5 0 = [(6, 0)] \<and>
   path_occupied setupPieces 7 0 5 0 \<and>
   isValidMove setupPieces (Some (new_ChessPiece 0 350 Rook False)) 5 0 = Some True"
  by code_simp

section \<open>The knight\<close>

text \<open>
  Claim C4, amended. For every scene, every knight and every destination, \<open>isValidMove\<close>
  answers \<open>true\<close> exactly when the absolute row and column differences are 2 and 1 in
  either order and the hit test at the destination finds no piece of the colour of the
  knight. No other square of the scene is looked at.
\<close>

theorem knight_rule:
  assumes "m_pieceType piece = Knight"
  shows "isValidMove s (Some piece) newRow newCol =
     Some (((\<bar>newRow - piece_row piece\<bar> = 2 \<and> \<bar>newCol - piece_col piece\<bar> = 1) \<or>
            (\<bar>newRow - piece_row piece\<bar> = 1 \<and> \<bar>newCol - piece_col piece\<bar> = 2)) \<and>
           \<not> same_colour (pieceAt s newRow newCol) piece)"
  using assms by (auto simp: Let_def pieceAt_def)

text \<open>The knight on \<open>(0, 1)\<close> of the starting position may go to \<open>(2, 2)\<close> and not to
  \<open>(2, 1)\<close>.\<close>

theorem knight_rule_witness:
  "m_pieceType (new_ChessPiece 50 0 Knight True) = Knight \<and>
   isValidMove setupPieces (Some (new_ChessPiece 50 0 Knight True)) 2 2 = Some True \<and>
   isValidMove setupPieces (Some (new_ChessPiece 50 0 Knight True)) 2 1 = Some False"
proof -
  let ?k = "new_ChessPiece 50 0 Knight True"
  have h: "m_pieceType ?k = Knight" by code_simp
  have sq: "piece_row ?k = 0" "piece_col ?k = 1" by code_simp+
  have occ: "\<not> same_colour (pieceAt setupPieces 2 2) ?k" by code_simp
  have "isValidMove setupPieces (Some ?k) 2 2 = Some True"
    unfolding knight_rule[OF h] using sq occ by simp
  moreover have "isValidMove setupPieces (Some ?k) 2 1 = Some False"
    unfolding knight_rule[OF h] using sq by simp
  ultimately show ?thesis using h by blast
qed

text \<open>The claim as first stated fails where the square at the knight's offset holds a
  piece of its own colour: from \<open>(0, 1)\<close> the square \<open>(1, 3)\<close> is one row and two columns
  away, and the pawn of the same colour stands there.\<close>

theorem knight_own_piece_counterexample:
  "m_pieceType (new_ChessPiece 50 0 Knight True) = Knight \<and>
   \<bar>1 - piece_row (new_ChessPiece 50 0 Knight True)\<bar> = 1 \<and>
   \<bar>3 - piece_col (new_ChessPiece 50 0 Knight True)\<bar> = 2 \<and>
   pieceAt setupPieces 1 3 = Some (new_ChessPiece 150 50 Pawn True) \<and>
   isValidMove setupPieces (Some (new_ChessPiece 50 0 Knight True)) 1 3 = Some False"
  by code_simp

section \<open>The white pawn\<close>

text \<open>
  Claim C9. For every scene and every white pawn, \<open>isValidMove\<close> answers \<open>true\<close> in
  exactly two kinds of cases. A move straight ahead onto an empty square has row
  difference \<open>+1\<close>, or \<open>+2\<close> from row 6 with the square in between (on row 7) empty. A move
  one column aside onto a piece of the other colour has row difference \<open>-1\<close>. The pawn
  captures in the direction opposite to the one it advances in.
\<close>

theorem white_pawn_rule:
  assumes "m_pieceType piece = Pawn" and "m_isWhite piece"
  shows "isValidMove s (Some piece) newRow newCol =
     Some ((newCol = piece_col piece \<and> pieceAt s newRow newCol = None \<and>
              (newRow - piece_row piece = 1 \<or>
               newRow - piece_row piece = 2 \<and> piece_row piece = 6 \<and>
                 pieceAt s 7 (piece_col piece) = None))
         \<or> (\<bar>newCol - piece_col piece\<bar> = 1 \<and> newRow - piece_row piece = - 1 \<and>
              opposite_colour (pieceAt s newRow newCol) piece))"
proof (cases "newRow = piece_row piece \<and> newCol = piece_col piece")
  case True
  then show ?thesis by simp
next
  case moves: False
  show ?thesis
  proof (cases "same_colour (pieceAt s newRow newCol) piece")
    case True
    then have "pieceAt s newRow newCol \<noteq> None" "\<not> opposite_colour (pieceAt s newRow newCol) piece"
      by (auto simp: same_colour_def opposite_colour_def split: option.splits)
    moreover have "isValidMove s (Some piece) newRow newCol = Some False"
      using True by (simp add: pieceAt_def Let_def)
    ultimately show ?thesis by simp
  next
    case False
    then have "isValidMove s (Some piece) newRow newCol =
        isValidMoveWhitePawn s (Some piece) newRow newCol"
      using moves assms
      by (auto simp add: pieceAt_def Let_def simp del: isValidMoveWhitePawn.simps)
    then show ?thesis by (simp only: isValidMoveWhitePawn_rule)
  qed
qed

text \<open>The white pawn on \<open>(1, 4)\<close> of the starting position may step to \<open>(2, 4)\<close> and may
  not go to \<open>(0, 4)\<close>.\<close>

theorem white_pawn_rule_witness:
  "m_pieceType (new_ChessPiece 200 50 Pawn True) = Pawn \<and>
   m_isWhite (new_ChessPiece 200 50 Pawn True) \<and>
   isValidMove setupPieces (Some (new_ChessPiece 200 50 Pawn True)) 2 4 = Some True \<and>
   isValidMove setupPieces (Some (new_ChessPiece 200 50 Pawn True)) 0 4 = Some False"
proof -
  let ?p = "new_ChessPiece 200 50 Pawn True"
  have h1: "m_pieceType ?p = Pawn" by code_simp
  have h2: "m_isWhite ?p" by code_simp
  have sq: "piece_row ?p = 1" "piece_col ?p = 4" by code_simp+
  have occ: "pieceAt setupPieces 2 4 = None" "pieceAt setupPieces 0 4 \<noteq> None"
    "\<not> opposite_colour (pieceAt setupPieces 0 4) ?p" by code_simp+
  have "isValidMove setupPieces (Some ?p) 2 4 = Some True"
    unfolding white_pawn_rule[OF h1 h2] using sq occ by simp
  moreover have "isValidMove setupPieces (Some ?p) 0 4 = Some False"
    unfolding white_pawn_rule[OF h1 h2] using sq occ by simp
  ultimately show ?thesis using h1 h2 by blast
qed

text \<open>
  Claim C2. A white pawn should advance toward smaller rows, by one square or by two
  from row 6, and the pawn on \<open>(6, 4)\<close> of the starting position should be white and
  allowed to go to \<open>(4, 4)\<close>. In the program the pawn on \<open>(6, 4)\<close> of the starting
  position is black and may not go to \<open>(4, 4)\<close>; the white pawns start on row 1, step
  toward larger rows and may not advance by two from there. A white pawn alone on
  \<open>(6, 4)\<close> may go neither to \<open>(5, 4)\<close> nor to \<open>(4, 4)\<close>, but to \<open>(7, 4)\<close> and to the square
  \<open>(8, 4)\<close> beyond the board.
\<close>

theorem white_pawn_forward_direction:
  "pieceAt setupPieces 6 4 = Some (new_ChessPiece 200 300 Pawn False) \<and>
   isValidMove setupPieces (Some (new_ChessPiece 200 300 Pawn False)) 4 4 = Some False \<and>
   pieceAt setupPieces 1 4 = Some (new_ChessPiece 200 50 Pawn True) \<and>
   isValidMove setupPieces (Some (new_ChessPiece 200 50 Pawn True)) 2 4 = Some True \<and>
   isValidMove setupPieces (Some (new_ChessPiece 200 50 Pawn True)) 3 4 = Some False \<and>
   piece_row (new_ChessPiece 200 300 Pawn True) = 6 \<and>
   piece_col (new_ChessPiece 200 300 Pawn True) = 4 \<and>
   isValidMove [new_ChessPiece 200 300 Pawn True] (Some (new_ChessPiece 200 300 Pawn True)) 5 4 =
     Some False \<and>
   isValidMove [new_ChessPiece 200 300 Pawn True] (Some (new_ChessPiece 200 300 Pawn True)) 4 4 =
     Some False \<and>
   isValidMove [new_ChessPiece 200 300 Pawn True] (Some (new_ChessPiece 200 300 Pawn True)) 7 4 =
     Some True \<and>
   isValidMove [new_ChessPiece 200 300 Pawn True] (Some (new_ChessPiece 200 300 Pawn True)) 8 4 =
     Some True"
  by code_simp

section \<open>Moving a piece\<close>

text \<open>
  Claim C7. \<open>movePiece\<close> always returns, and does all or nothing. Either the move is not
  valid, the answer is \<open>false\<close> and the scene is the one before; or the move is valid and
  the answer is \<open>true\<close>, and then, in a well-formed scene that holds the mover, the scene
  after is well formed and consists of the arrived piece (the mover at its new position, or
  the queen of a promotion) and the pieces that were neither the mover nor on the
  destination: the captured piece is gone, the destination holds the arrived piece and the
  square the mover left is empty.
\<close>

theorem movePiece_atomic:
  "(isValidMove s (Some piece) row col = Some False \<and>
      movePiece s (Some piece) row col = Some (False, s)) \<or>
   (isValidMove s (Some piece) row col = Some True \<and>
      (\<exists>s'. movePiece s (Some piece) row col = Some (True, s') \<and>
         (well_formed s \<and> piece \<in> set s \<longrightarrow>
            well_formed s' \<and>
            set s' = insert (arrived piece row col) (set (bystanders s piece row col)) \<and>
            pieceAt s' row col = Some (arrived piece row col) \<and>
            pieceAt s' (piece_row piece) (piece_col piece) = None)))"
proof -
  obtain v where v: "isValidMove s (Some piece) row col = Some v"
    using isValidMove_defined[of s "Some piece" row col] by blast
  show ?thesis
  proof (cases v)
    case False
    then have "movePiece s (Some piece) row col = Some (False, s)"
      using v by (simp del: isValidMove.simps)
    then show ?thesis using v False by simp
  next
    case True
    then have legal: "isValidMove s (Some piece) row col = Some True" using v by simp
    then have "\<exists>s'. movePiece s (Some piece) row col = Some (True, s')"
      by (simp del: isValidMove.simps add: Let_def)
    then obtain s' where s': "movePiece s (Some piece) row col = Some (True, s')" ..
    have "well_formed s' \<and>
        set s' = insert (arrived piece row col) (set (bystanders s piece row col)) \<and>
        pieceAt s' row col = Some (arrived piece row col) \<and>
        pieceAt s' (piece_row piece) (piece_col piece) = None"
      if wf: "well_formed s" and mem: "piece \<in> set s"
    proof -
      from movePiece_legal[OF wf mem legal] s'
      have eff: "well_formed s'"
        "set s' = insert (arrived piece row col) (set (bystanders s piece row col))"
        by simp_all
      from pieceAt_after_move(1,2)[OF wf mem eff isValidMove_True_moves[OF legal]] eff
      show ?thesis by simp
    qed
    then show ?thesis using legal s' by blast
  qed
qed

text \<open>In the starting position the white pawn on \<open>(1, 4)\<close> moves to \<open>(2, 4)\<close>, and its
  move to \<open>(3, 4)\<close> is refused and leaves the scene as it was.\<close>

theorem movePiece_atomic_witness:
  "well_formed setupPieces \<and>
   new_ChessPiece 200 50 Pawn True \<in> set setupPieces \<and>
   isValidMove setupPieces (Some (new_ChessPiece 200 50 Pawn True)) 2 4 = Some True \<and>
   (\<exists>s'. movePiece setupPieces (Some (new_ChessPiece 200 50 Pawn True)) 2 4 = Some (True, s') \<and>
      well_formed s' \<and>
      pieceAt s' 2 4 = Some (new_ChessPiece 200 100 Pawn True) \<and>
      pieceAt s' 1 4 = None) \<and>
   isValidMove setupPieces (Some (new_ChessPiece 200 50 Pawn True)) 3 4 = Some False \<and>
   movePiece setupPieces (Some (new_ChessPiece 200 50 Pawn True)) 3 4 = Some (False, setupPieces)"
proof -
  let ?p = "new_ChessPiece 200 50 Pawn True"
  have wf: "well_formed setupPieces" by code_simp
  have mem: "?p \<in> set setupPieces" by code_simp
  have legal: "isValidMove setupPieces (Some ?p) 2 4 = Some True" by code_simp
  have illegal: "isValidMove setupPieces (Some ?p) 3 4 = Some False" by code_simp
  have sq: "piece_row ?p = 1" "piece_col ?p = 4"
    "arrived ?p 2 4 = new_ChessPiece 200 100 Pawn True" by code_simp+
  from movePiece_atomic[of setupPieces ?p 2 4] legal wf mem sq
  have a: "\<exists>s'. movePiece setupPieces (Some ?p) 2 4 = Some (True, s') \<and> well_formed s' \<and>
      pieceAt s' 2 4 = Some (new_ChessPiece 200 100 Pawn True) \<and> pieceAt s' 1 4 = None"
    by auto
  from movePiece_atomic[of setupPieces ?p 3 4] illegal
  have b: "movePiece setupPieces (Some ?p) 3 4 = Some (False, setupPieces)"
    by auto
  show ?thesis by (intro conjI wf mem legal a illegal b)
qed

text \<open>
  Claim C8, amended. In a well-formed scene, a valid move onto a square that holds a
  piece of the other colour takes exactly that piece off the board, so that the scene has
  one piece less. The destination then holds the mover at its new position or, when the
  mover is a pawn that arrives on row 0 or row 7, a new queen of the mover's colour in its
  place. The square the mover left is empty, and every square other than these two holds
  what it held before.
\<close>

theorem movePiece_capture:
  assumes wf: "well_formed s" and mem: "piece \<in> set s"
    and legal: "isValidMove s (Some piece) row col = Some True"
    and dest: "pieceAt s row col = Some d" and opp: "m_isWhite d \<noteq> m_isWhite piece"
  shows "\<exists>s'. movePiece s (Some piece) row col = Some (True, s') \<and>
           length s' = length s - 1 \<and> d \<notin> set s' \<and>
           pieceAt s' row col = Some (arrived piece row col) \<and>
           pieceAt s' (piece_row piece) (piece_col piece) = None \<and>
           (\<forall>r c. \<not> (r = row \<and> c = col) \<and> \<not> (r = piece_row piece \<and> c = piece_col piece) \<longrightarrow>
                  pieceAt s' r c = pieceAt s r c)"
proof -
  from movePiece_legal[OF wf mem legal] dest obtain s'
    where mv: "movePiece s (Some piece) row col = Some (True, s')"
      and wf': "well_formed s'"
      and set': "set s' = insert (arrived piece row col) (set (bystanders s piece row col))"
      and len: "length s' = length s - 1"
    by auto
  note after = pieceAt_after_move[OF wf mem wf' set' isValidMove_True_moves[OF legal]]
  have d: "d \<in> set s" "on_square d row col"
    using dest wf by (simp_all add: pieceAt_Some_iff)
  have "m_isWhite (arrived piece row col) = m_isWhite piece"
    by (simp add: arrived_def new_ChessPiece_def)
  then have "d \<noteq> arrived piece row col" using opp by auto
  then have "d \<notin> set s'" using d(2) by (simp add: set' set_bystanders)
  then show ?thesis using mv len after by blast
qed

text \<open>With the white pawn on \<open>(1, 0)\<close> taken away from the starting position, the white
  rook on \<open>(0, 0)\<close> captures the black pawn on \<open>(6, 0)\<close>.\<close>

theorem movePiece_capture_witness:
  "well_formed (removeItem (new_ChessPiece 0 50 Pawn True) setupPieces) \<and>
   new_ChessPiece 0 0 Rook True \<in> set (removeItem (new_ChessPiece 0 50 Pawn True) setupPieces) \<and>
   isValidMove (removeItem (new_ChessPiece 0 50 Pawn True) setupPieces)
     (Some (new_ChessPiece 0 0 Rook True)) 6 0 = Some True \<and>
   pieceAt (removeItem (new_ChessPiece 0 50 Pawn True) setupPieces) 6 0 =
     Some (new_ChessPiece 0 300 Pawn False) \<and>
   m_isWhite (new_ChessPiece 0 300 Pawn False) \<noteq> m_isWhite (new_ChessPiece 0 0 Rook True) \<and>
   (\<exists>s'. movePiece (removeItem (new_ChessPiece 0 50 Pawn True) setupPieces)
           (Some (new_ChessPiece 0 0 Rook True)) 6 0 = Some (True, s') \<and>
         length s' = 30 \<and> new_ChessPiece 0 300 Pawn False \<notin> set s' \<and>
         pieceAt s' 6 0 = Some (new_ChessPiece 0 300 Rook True) \<and>
         pieceAt s' 0 0 = None \<and>
         pieceAt s' 7 0 = Some (new_ChessPiece 0 350 Rook False))"
proof -
  let ?s = "removeItem (new_ChessPiece 0 50 Pawn True) setupPieces"
  let ?p = "new_ChessPiece 0 0 Rook True"
  let ?d = "new_ChessPiece 0 300 Pawn False"
  have wf: "well_formed ?s" by code_simp
  have mem: "?p \<in> set ?s" by code_simp
  have legal: "isValidMove ?s (Some ?p) 6 0 = Some True" by code_simp
  have dest: "pieceAt ?s 6 0 = Some ?d" by code_simp
  have opp: "m_isWhite ?d \<noteq> m_isWhite ?p" by code_simp
  have sq: "piece_row ?p = 0" "piece_col ?p = 0" "length ?s = 31"
    "arrived ?p 6 0 = new_ChessPiece 0 300 Rook True"
    "pieceAt ?s 7 0 = Some (new_ChessPiece 0 350 Rook False)" by code_simp+
  from movePiece_capture[OF wf mem legal dest opp] obtain s'
    where s': "movePiece ?s (Some ?p) 6 0 = Some (True, s')"
      "length s' = length ?s - 1" "?d \<notin> set s'"
      "pieceAt s' 6 0 = Some (arrived ?p 6 0)"
      "pieceAt s' (piece_row ?p) (piece_col ?p) = None"
      "\<forall>r c. \<not> (r = 6 \<and> c = 0) \<and> \<not> (r = piece_row ?p \<and> c = piece_col ?p) \<longrightarrow>
          pieceAt s' r c = pieceAt ?s r c"
    by blast
  have "pieceAt s' 7 0 = pieceAt ?s 7 0" using s'(6) sq(1,2) by simp
  then have "movePiece ?s (Some ?p) 6 0 = Some (True, s') \<and>
         length s' = 30 \<and> ?d \<notin> set s' \<and>
         pieceAt s' 6 0 = Some (new_ChessPiece 0 300 Rook True) \<and>
         pieceAt s' 0 0 = None \<and>
         pieceAt s' 7 0 = Some (new_ChessPiece 0 350 Rook False)"
    using s' sq by simp
  then have ex: "\<exists>s'. movePiece ?s (Some ?p) 6 0 = Some (True, s') \<and>
         length s' = 30 \<and> ?d \<notin> set s' \<and>
         pieceAt s' 6 0 = Some (new_ChessPiece 0 300 Rook True) \<and>
         pieceAt s' 0 0 = None \<and>
         pieceAt s' 7 0 = Some (new_ChessPiece 0 350 Rook False)" ..
  show ?thesis by (intro conjI wf mem legal dest opp ex)
qed

text \<open>The claim as first stated fails for a capture that promotes. A white pawn on
  \<open>(1, 0)\<close> captures the black rook on \<open>(0, 1)\<close>: afterwards the only piece of the scene is
  a white queen, the mover does not stand on the destination, and two pieces have left
  the scene for one that has entered it.\<close>

theorem capture_promotion_counterexample:
  "well_formed [new_ChessPiece 0 50 Pawn True, new_ChessPiece 50 0 Rook False] \<and>
   pieceAt [new_ChessPiece 0 50 Pawn True, new_ChessPiece 50 0 Rook False] 0 1 =
     Some (new_ChessPiece 50 0 Rook False) \<and>
   isValidMove [new_ChessPiece 0 50 Pawn True, new_ChessPiece 50 0 Rook False]
     (Some (new_ChessPiece 0 50 Pawn True)) 0 1 = Some True \<and>
   movePiece [new_ChessPiece 0 50 Pawn True, new_ChessPiece 50 0 Rook False]
     (Some (new_ChessPiece 0 50 Pawn True)) 0 1 = Some (True, [new_ChessPiece 50 0 Queen True]) \<and>
   pieceAt [new_ChessPiece 50 0 Queen True] 0 1 \<noteq> Some (new_ChessPiece 50 0 Pawn True)"
  by code_simp

section \<open>Promotion\<close>

text \<open>
  Claim C3, amended. In a well-formed scene, a valid move promotes exactly when the mover
  is a pawn and the destination row is 0 or 7, whatever the colour of the pawn. The
  promotion leaves a new queen of the pawn's colour on the destination, the pawn itself is
  no longer in the scene, and the scene holds nothing else new. In every other case the
  destination holds the mover itself, with its kind unchanged.
\<close>

theorem movePiece_promotion:
  assumes wf: "well_formed s" and mem: "piece \<in> set s"
    and legal: "isValidMove s (Some piece) row col = Some True"
  shows "\<exists>s'. movePiece s (Some piece) row col = Some (True, s') \<and>
           (if m_pieceType piece = Pawn \<and> (row = 0 \<or> row = 7)
            then pieceAt s' row col =
                   Some (new_ChessPiece (col * 50) (row * 50) Queen (m_isWhite piece)) \<and>
                 piece \<notin> set s' \<and>
                 set s' = insert (new_ChessPiece (col * 50) (row * 50) Queen (m_isWhite piece))
                            (set (bystanders s piece row col))
            else pieceAt s' row col = Some (piece\<lparr>pos_x := col * 50, pos_y := row * 50\<rparr>))"
proof -
  from movePiece_legal[OF wf mem legal] obtain s'
    where mv: "movePiece s (Some piece) row col = Some (True, s')"
      and wf': "well_formed s'"
      and set': "set s' = insert (arrived piece row col) (set (bystanders s piece row col))"
    by auto
  note at = pieceAt_after_move(1)[OF wf mem wf' set' isValidMove_True_moves[OF legal]]
  show ?thesis
  proof (cases "m_pieceType piece = Pawn \<and> (row = 0 \<or> row = 7)")
    case True
    then have arr: "arrived piece row col =
        new_ChessPiece (col * 50) (row * 50) Queen (m_isWhite piece)"
      by (simp add: arrived_def isPawnPromotion_def)
    have "m_pieceType (new_ChessPiece (col * 50) (row * 50) Queen (m_isWhite piece)) = Queen"
      by (simp add: new_ChessPiece_def)
    then have "piece \<noteq> new_ChessPiece (col * 50) (row * 50) Queen (m_isWhite piece)"
      using True by (metis PieceType.distinct(7))
    then have "piece \<notin> set s'"
      by (simp add: set' arr set_bystanders)
    then show ?thesis using mv at set' True by (auto simp: arr)
  next
    case False
    then have "arrived piece row col = piece\<lparr>pos_x := col * 50, pos_y := row * 50\<rparr>"
      by (auto simp: arrived_def isPawnPromotion_def)
    then show ?thesis using mv at False by auto
  qed
qed

text \<open>A knight of the starting position moves and stays a knight; a white pawn on
  \<open>(6, 2)\<close> that steps to \<open>(7, 2)\<close> becomes a queen.\<close>

theorem movePiece_promotion_witness:
  "well_formed setupPieces \<and>
   new_ChessPiece 300 350 Knight False \<in> set setupPieces \<and>
   isValidMove setupPieces (Some (new_ChessPiece 300 350 Knight False)) 5 5 = Some True \<and>
   (\<exists>s'. movePiece setupPieces (Some (new_ChessPiece 300 350 Knight False)) 5 5 = Some (True, s') \<and>
         pieceAt s' 5 5 = Some (new_ChessPiece 250 250 Knight False)) \<and>
   well_formed [new_ChessPiece 100 300 Pawn True, new_ChessPiece 200 0 King False] \<and>
   new_ChessPiece 100 300 Pawn True \<in>
     set [new_ChessPiece 100 300 Pawn True, new_ChessPiece 200 0 King False] \<and>
   isValidMove [new_ChessPiece 100 300 Pawn True, new_ChessPiece 200 0 King False]
     (Some (new_ChessPiece 100 300 Pawn True)) 7 2 = Some True \<and>
   (\<exists>s'. movePiece [new_ChessPiece 100 300 Pawn True, new_ChessPiece 200 0 King False]
           (Some (new_ChessPiece 100 300 Pawn True)) 7 2 = Some (True, s') \<and>
         pieceAt s' 7 2 = Some (new_ChessPiece 100 350 Queen True) \<and>
         new_ChessPiece 100 300 Pawn True \<notin> set s' \<and>
         set s' = {new_ChessPiece 100 350 Queen True, new_ChessPiece 200 0 King False})"
proof -
  let ?k = "new_ChessPiece 300 350 Knight False"
  let ?p = "new_ChessPiece 100 300 Pawn True"
  let ?s = "[new_ChessPiece 100 300 Pawn True, new_ChessPiece 200 0 King False]"
  have wf1: "well_formed setupPieces" and mem1: "?k \<in> set setupPieces"
    and legal1: "isValidMove setupPieces (Some ?k) 5 5 = Some True" by code_simp+
  have wf2: "well_formed ?s" and mem2: "?p \<in> set ?s"
    and legal2: "isValidMove ?s (Some ?p) 7 2 = Some True" by code_simp+
  have k: "m_pieceType ?k = Knight" "?k\<lparr>pos_x := 5 * 50, pos_y := 5 * 50\<rparr> = new_ChessPiece 250 250 Knight False"
    by code_simp+
  have p: "m_pieceType ?p = Pawn" "m_isWhite ?p = True"
    "set (bystanders ?s ?p 7 2) = {new_ChessPiece 200 0 King False}"
    by code_simp+
  have a: "\<exists>s'. movePiece setupPieces (Some ?k) 5 5 = Some (True, s') \<and>
         pieceAt s' 5 5 = Some (new_ChessPiece 250 250 Knight False)"
    using movePiece_promotion[OF wf1 mem1 legal1] k by simp
  have b: "\<exists>s'. movePiece ?s (Some ?p) 7 2 = Some (True, s') \<and>
         pieceAt s' 7 2 = Some (new_ChessPiece 100 350 Queen True) \<and>
         ?p \<notin> set s' \<and>
         set s' = {new_ChessPiece 100 350 Queen True, new_ChessPiece 200 0 King False}"
    using movePiece_promotion[OF wf2 mem2 legal2] p by simp
  show ?thesis by (intro conjI wf1 mem1 legal1 a wf2 mem2 legal2 b)
qed

text \<open>The claim as first stated ties promotion to a white pawn on row 0 and a black pawn
  on row 7 only. A white pawn that lands on row 7 is promoted, and so is a black pawn
  that lands on row 0.\<close>

theorem promotion_any_colour_counterexample:
  "m_pieceType (new_ChessPiece 0 300 Pawn True) = Pawn \<and>
   m_isWhite (new_ChessPiece 0 300 Pawn True) \<and>
   isValidMove [new_ChessPiece 0 300 Pawn True] (Some (new_ChessPiece 0 300 Pawn True)) 7 0 =
     Some True \<and>
   movePiece [new_ChessPiece 0 300 Pawn True] (Some (new_ChessPiece 0 300 Pawn True)) 7 0 =
     Some (True, [new_ChessPiece 0 350 Queen True]) \<and>
   m_pieceType (new_ChessPiece 350 50 Pawn False) = Pawn \<and>
   \<not> m_isWhite (new_ChessPiece 350 50 Pawn False) \<and>
   isValidMove [new_ChessPiece 350 50 Pawn False] (Some (new_ChessPiece 350 50 Pawn False)) 0 7 =
     Some True \<and>
   movePiece [new_ChessPiece 350 50 Pawn False] (Some (new_ChessPiece 350 50 Pawn False)) 0 7 =
     Some (True, [new_ChessPiece 350 0 Queen False])"
  by code_simp

section \<open>Termination\<close>

text \<open>
  Claim C10. \<open>isPathBlocked\<close> returns for every pair of distinct squares that share a row,
  a column or a diagonal, and \<open>isValidMove\<close> returns for every scene, piece and
  destination: each of its calls of \<open>isPathBlocked\<close> stands behind a test that puts the two
  squares on a common line.
\<close>

theorem legality_terminates:
  "((r, c) \<noteq> (r', c') \<and> aligned_squares r c r' c' \<longrightarrow>
      (\<exists>blocked. isPathBlocked s r c r' c' = Some blocked)) \<and>
   (\<exists>valid. isValidMove s piece newRow newCol = Some valid)"
  using isPathBlocked_total[of r c r' c' s] isValidMove_defined[of s piece newRow newCol]
  by auto

theorem legality_terminates_witness:
  "(7 :: int, 0 :: int) \<noteq> (4, 3) \<and> aligned_squares 7 0 4 3 \<and>
   (\<exists>blocked. isPathBlocked setupPieces 7 0 4 3 = Some blocked) \<and>
   (\<exists>valid. isValidMove setupPieces (Some (new_ChessPiece 150 350 Queen False)) 4 0 = Some valid)"
proof -
  have h: "(7 :: int, 0 :: int) \<noteq> (4, 3)" "aligned_squares 7 0 4 3" by code_simp+
  from legality_terminates[of 7 0 4 3 setupPieces "Some (new_ChessPiece 150 350 Queen False)" 4 0] h
  show ?thesis by blast
qed

end
